theory Spec2Isabelle
  imports Complex_Main "HOL-Library.AList"
begin

section \<open>Errors\<close>

text \<open>
  Every exception the modelled code can raise is a value.  The first three are the
  classes of \<^verbatim>\<open>app/exceptions.py\<close>: \<^verbatim>\<open>UserNotFoundError(username)\<close>,
  \<^verbatim>\<open>RateLimitError(retry_after)\<close> and the base class
  \<^verbatim>\<open>GitHubAPIError(message, status_code)\<close>.  The others are exceptions of Python, of
  pydantic and of httpx (\<^verbatim>\<open>httpx.InvalidURL\<close>) that the code does not catch.
\<close>

datatype error =
    UserNotFoundError string
  | RateLimitError int
  | GitHubAPIError string "int option"
  | ValueError
  | ValidationError
  | AttributeError
  | TypeError
  | JSONDecodeError
  | IndexError
  | InvalidURLError

text \<open>Membership in the exception hierarchy rooted at \<^verbatim>\<open>GitHubAPIError\<close>.\<close>

fun is_github_api_error :: "error \<Rightarrow> bool" where
  "is_github_api_error (UserNotFoundError _) = True"
| "is_github_api_error (RateLimitError _) = True"
| "is_github_api_error (GitHubAPIError _ _) = True"
| "is_github_api_error _ = False"

text \<open>The attribute \<^verbatim>\<open>status_code\<close> that the three classes set in their constructors.\<close>

fun status_code_of :: "error \<Rightarrow> int option" where
  "status_code_of (UserNotFoundError _) = Some 404"
| "status_code_of (RateLimitError _) = Some 429"
| "status_code_of (GitHubAPIError _ sc) = sc"
| "status_code_of _ = None"

section \<open>The TTL cache (\<^verbatim>\<open>app/utils/cache.py\<close>)\<close>

text \<open>
  \<^verbatim>\<open>self._cache\<close> is a Python dict from keys to pairs \<open>(value, expiry_time)\<close>.  A dict
  iterates in insertion order, and \<^verbatim>\<open>min\<close> returns the first minimal element of that
  order, so the dict is an association list: assignment to a present key replaces the
  entry in place, assignment to a new key appends, \<^verbatim>\<open>del\<close> removes the entry.
  The keys of a dict are distinct; \<open>wf_cache\<close> states it for the list.

  \<^verbatim>\<open>time.time()\<close> is read from outside: each read is an argument of the operation that
  makes it, in the order the reads happen.  Times are real numbers.
\<close>

record 'v TTLCache =
  cache :: "(string \<times> ('v \<times> real)) list"
  ttl_seconds :: int
  max_size :: int

definition wf_cache :: "'v TTLCache \<Rightarrow> bool" where
  "wf_cache c = distinct (map fst (cache c))"

text \<open>\<^verbatim>\<open>__init__\<close> stores its arguments and has no \<^verbatim>\<open>raise\<close>: there is no error branch.\<close>

definition TTLCache_init :: "int \<Rightarrow> int \<Rightarrow> error + 'v TTLCache" where
  "TTLCache_init ttl ms = Inr \<lparr>cache = [], ttl_seconds = ttl, max_size = ms\<rparr>"

definition evict_expired :: "real \<Rightarrow> 'v TTLCache \<Rightarrow> 'v TTLCache" where
  "evict_expired current_time c =
     (let expired_keys =
            map fst (filter (\<lambda>(key, (_, expiry_time)). current_time \<ge> expiry_time) (cache c))
      in c\<lparr>cache := fold AList.delete expired_keys (cache c)\<rparr>)"

text \<open>
  \<^verbatim>\<open>min(keys, key=...)\<close>: the first entry, in iteration order, whose expiry is the least.
\<close>

fun oldest_entry :: "(string \<times> ('v \<times> real)) \<Rightarrow> (string \<times> ('v \<times> real)) list
    \<Rightarrow> (string \<times> ('v \<times> real))" where
  "oldest_entry best [] = best"
| "oldest_entry best (p # ps) =
     oldest_entry (if snd (snd p) < snd (snd best) then p else best) ps"

definition evict_oldest :: "'v TTLCache \<Rightarrow> 'v TTLCache" where
  "evict_oldest c =
     (case cache c of
        [] \<Rightarrow> c
      | p # ps \<Rightarrow> c\<lparr>cache := AList.delete (fst (oldest_entry p ps)) (cache c)\<rparr>)"

text \<open>
  \<^verbatim>\<open>get\<close> reads the clock in the sweep (\<open>t1\<close>) and, when the key is still present, once
  more for the comparison (\<open>t2\<close>).  It returns the value, or \<open>None\<close>, and the cache it
  leaves behind.
\<close>

definition TTLCache_get :: "'v TTLCache \<Rightarrow> real \<Rightarrow> real \<Rightarrow> string \<Rightarrow> 'v option \<times> 'v TTLCache" where
  "TTLCache_get c t1 t2 key =
     (let c1 = evict_expired t1 c in
      case map_of (cache c1) key of
        Some (val, expiry_time) \<Rightarrow>
          if t2 < expiry_time then (Some val, c1)
          else (None, c1\<lparr>cache := AList.delete key (cache c1)\<rparr>)
      | None \<Rightarrow> (None, c1))"

text \<open>
  \<^verbatim>\<open>set\<close> reads the clock in the sweep (\<open>t1\<close>) and again for the new expiry (\<open>t2\<close>).
\<close>

definition TTLCache_set :: "'v TTLCache \<Rightarrow> real \<Rightarrow> real \<Rightarrow> string \<Rightarrow> 'v \<Rightarrow> 'v TTLCache" where
  "TTLCache_set c t1 t2 key val =
     (let c1 = evict_expired t1 c;
          c2 = (if int (length (cache c1)) \<ge> max_size c1 \<and> key \<notin> fst ` set (cache c1)
                then evict_oldest c1 else c1);
          expiry_time = t2 + real_of_int (ttl_seconds c2)
      in c2\<lparr>cache := AList.update key (val, expiry_time) (cache c2)\<rparr>)"

definition TTLCache_clear :: "'v TTLCache \<Rightarrow> 'v TTLCache" where
  "TTLCache_clear c = c\<lparr>cache := []\<rparr>"

text \<open>A sequence of calls on one cache, each with the clock reads it makes.\<close>

datatype 'v cache_op =
    Get string real real
  | Set string 'v real real
  | Clear

fun apply_cache_op :: "'v TTLCache \<Rightarrow> 'v cache_op \<Rightarrow> 'v TTLCache" where
  "apply_cache_op c (Get key t1 t2) = snd (TTLCache_get c t1 t2 key)"
| "apply_cache_op c (Set key val t1 t2) = TTLCache_set c t1 t2 key val"
| "apply_cache_op c Clear = TTLCache_clear c"

definition run_cache_ops :: "'v TTLCache \<Rightarrow> 'v cache_op list \<Rightarrow> 'v TTLCache" where
  "run_cache_ops c ops = fold (\<lambda>op c'. apply_cache_op c' op) ops c"

text \<open>The size invariant of the cache: distinct keys, and no more entries than \<open>max_size\<close>.\<close>

definition cache_inv :: "'v TTLCache \<Rightarrow> bool" where
  "cache_inv c = (wf_cache c \<and> int (length (cache c)) \<le> max_size c)"

section \<open>Settings and the cache singleton (\<^verbatim>\<open>app/core/config.py\<close>, \<^verbatim>\<open>app/core/dependencies.py\<close>)\<close>

text \<open>
  \<^verbatim>\<open>validate_positive_int\<close> is the field validator of \<^verbatim>\<open>cache_ttl_seconds\<close>,
  \<^verbatim>\<open>cache_max_size\<close> and \<^verbatim>\<open>request_timeout_seconds\<close>.  A \<^verbatim>\<open>ValueError\<close> raised by a
  field validator makes the construction of \<^verbatim>\<open>Settings\<close> fail with pydantic's
  \<^verbatim>\<open>ValidationError\<close>.  \<^verbatim>\<open>Settings\<close> has further fields (titles, host, port, base URL, log
  level) whose validators do not depend on these three; the record keeps the three integer
  fields and \<open>Settings_init\<close> takes their configured values.
\<close>

record Settings =
  cache_ttl_seconds :: int
  cache_max_size :: int
  request_timeout_seconds :: int

definition validate_positive_int :: "int \<Rightarrow> error + int" where
  "validate_positive_int v = (if v \<le> 0 then Inl ValueError else Inr v)"

definition Settings_init :: "int \<Rightarrow> int \<Rightarrow> int \<Rightarrow> error + Settings" where
  "Settings_init ttl ms tmo =
     (case (validate_positive_int ttl, validate_positive_int ms, validate_positive_int tmo) of
        (Inr a, Inr b, Inr c) \<Rightarrow>
          Inr \<lparr>cache_ttl_seconds = a, cache_max_size = b, request_timeout_seconds = c\<rparr>
      | _ \<Rightarrow> Inl ValidationError)"

text \<open>
  The module-level singletons \<^verbatim>\<open>_settings\<close> and \<^verbatim>\<open>_cache_instance\<close>, both \<^verbatim>\<open>None\<close> when
  the process starts.  \<open>get_settings\<close> and \<open>get_cache\<close> take the configured values
  \<open>(ttl, ms, tmo)\<close> of the environment and return the instance with the updated globals.
\<close>

record 'v app_globals =
  settings_instance :: "Settings option"
  cache_instance :: "'v TTLCache option"

definition get_settings :: "int \<times> int \<times> int \<Rightarrow> 'v app_globals \<Rightarrow> error + (Settings \<times> 'v app_globals)" where
  "get_settings env g =
     (case settings_instance g of
        Some s \<Rightarrow> Inr (s, g)
      | None \<Rightarrow>
          (case env of (ttl, ms, tmo) \<Rightarrow>
             (case Settings_init ttl ms tmo of
                Inl e \<Rightarrow> Inl e
              | Inr s \<Rightarrow> Inr (s, g\<lparr>settings_instance := Some s\<rparr>))))"

definition get_cache :: "int \<times> int \<times> int \<Rightarrow> 'v app_globals \<Rightarrow> error + ('v TTLCache \<times> 'v app_globals)" where
  "get_cache env g =
     (case cache_instance g of
        Some c \<Rightarrow> Inr (c, g)
      | None \<Rightarrow>
          (case get_settings env g of
             Inl e \<Rightarrow> Inl e
           | Inr (settings, g1) \<Rightarrow>
               (case TTLCache_init (cache_ttl_seconds settings) (cache_max_size settings) of
                  Inl e \<Rightarrow> Inl e
                | Inr c \<Rightarrow> Inr (c, g1\<lparr>cache_instance := Some c\<rparr>))))"

section \<open>GitHub models (\<^verbatim>\<open>app/models/github.py\<close>)\<close>

text \<open>
  The pydantic models as records.  Field names carry a prefix where two models share a
  name (\<^verbatim>\<open>id\<close>, \<^verbatim>\<open>type\<close>).  \<open>'dt\<close> is the type of a parsed \<^verbatim>\<open>datetime\<close>.

  Strings are lists of 8-bit characters: the model is that of ASCII text, which is what
  GitHub logins and repository names are.
\<close>

record GitHubActor =
  login :: string
  actor_id :: int

record GitHubRepositoryResponse =
  repo_id :: int
  name :: string
  url :: string

record 'dt GitHubEvent =
  ev_id :: int
  ev_type :: string
  ev_actor :: GitHubActor
  ev_repo :: GitHubRepositoryResponse
  ev_created_at :: 'dt

definition full_name :: "GitHubRepositoryResponse \<Rightarrow> string" where
  "full_name r = name r"

text \<open>
  \<^verbatim>\<open>s.split(sep)\<close> for a separator of one character: the pieces between the separators,
  at least one piece.
\<close>

fun split_on :: "char \<Rightarrow> string \<Rightarrow> string list" where
  "split_on sep [] = [[]]"
| "split_on sep (c # cs) =
     (if c = sep then [] # split_on sep cs
      else (case split_on sep cs of
              [] \<Rightarrow> [[c]]
            | w # ws \<Rightarrow> (c # w) # ws))"

text \<open>Indexing a list at 0, which raises \<^verbatim>\<open>IndexError\<close> on the empty list.\<close>

definition index0 :: "'a list \<Rightarrow> error + 'a" where
  "index0 xs = (case xs of [] \<Rightarrow> Inl IndexError | x # _ \<Rightarrow> Inr x)"

text \<open>
  The property \<^verbatim>\<open>owner\<close>:
  \<^verbatim>\<open>owner_login = self.name.split("/")[0] if "/" in self.name else ""\<close>.
\<close>

definition owner :: "GitHubRepositoryResponse \<Rightarrow> error + GitHubActor" where
  "owner r =
     (case (if CHR ''/'' \<in> set (name r) then index0 (split_on CHR ''/'' (name r)) else Inr [])
      of Inl e \<Rightarrow> Inl e
       | Inr owner_login \<Rightarrow> Inr \<lparr>login = owner_login, actor_id = 0\<rparr>)"

text \<open>\<^verbatim>\<open>str.lower()\<close> on ASCII text: the letters A to Z are mapped to a to z.\<close>

definition char_lower :: "char \<Rightarrow> char" where
  "char_lower c =
     (let n = (of_char c :: nat) in if 65 \<le> n \<and> n \<le> 90 then char_of (n + 32) else c)"

definition str_lower :: "string \<Rightarrow> string" where
  "str_lower s = map char_lower s"

section \<open>The activity analysis (\<^verbatim>\<open>app/services/github_service.py\<close>, \<^verbatim>\<open>app/models/schemas.py\<close>)\<close>

record ActivityType =
  at_type :: string
  at_count :: int

record RepositoryActivity =
  repository_name :: string
  is_owner :: bool
  top_activity_types :: "ActivityType list"

record UserActivityResponse =
  username :: string
  repositories :: "RepositoryActivity list"
  total_repositories :: int
  total_events :: int

text \<open>
  \<^verbatim>\<open>top_activity_types\<close> is declared with \<^verbatim>\<open>max_length=3\<close>: pydantic rejects a longer list
  when the \<^verbatim>\<open>RepositoryActivity\<close> is constructed.
\<close>

definition RepositoryActivity_init :: "string \<Rightarrow> bool \<Rightarrow> ActivityType list \<Rightarrow> error + RepositoryActivity" where
  "RepositoryActivity_init rn io tops =
     (if length tops > 3 then Inl ValidationError
      else Inr \<lparr>repository_name = rn, is_owner = io, top_activity_types = tops\<rparr>)"

text \<open>
  \<^verbatim>\<open>repo_groups = defaultdict(list)\<close>, filled by
  \<^verbatim>\<open>repo_groups[event.repo.full_name].append(event)\<close>: a dict in insertion order, so an
  association list whose new keys go to the end.
\<close>

definition group_events_by_repository ::
    "'dt GitHubEvent list \<Rightarrow> (string \<times> 'dt GitHubEvent list) list" where
  "group_events_by_repository events =
     fold (\<lambda>event repo_groups.
             AList.map_default (full_name (ev_repo event)) [event] (\<lambda>evs. evs @ [event]) repo_groups)
          events []"

text \<open>
  \<^verbatim>\<open>collections.Counter(iterable)\<close>: a dict from each element to the number of its
  occurrences, in the order the elements are first met.
\<close>

definition Counter :: "string list \<Rightarrow> (string \<times> int) list" where
  "Counter xs = fold (\<lambda>x counter. AList.map_default x 1 (\<lambda>n. n + 1) counter) xs []"

text \<open>
  \<^verbatim>\<open>Counter.most_common(n)\<close> is \<^verbatim>\<open>heapq.nlargest(n, items, key=count)\<close>, documented as
  \<^verbatim>\<open>sorted(items, key=count, reverse=True)[:n]\<close>: a stable sort by count, largest first,
  so items with equal counts keep the order of the dict.  \<open>sort_key\<close> is a stable insertion
  sort; descending order is sorting by the negated count.
\<close>

definition most_common :: "nat \<Rightarrow> (string \<times> int) list \<Rightarrow> (string \<times> int) list" where
  "most_common n counter = take n (sort_key (\<lambda>p. - snd p) counter)"

definition get_top_activity_types :: "'dt GitHubEvent list \<Rightarrow> nat \<Rightarrow> ActivityType list" where
  "get_top_activity_types events top_n =
     (if events = [] then []
      else (let counter = Counter (map ev_type events);
                top_types = most_common top_n counter
            in map (\<lambda>(activity_type, n). \<lparr>at_type = activity_type, at_count = n\<rparr>) top_types))"

definition is_repository_owner :: "GitHubRepositoryResponse \<Rightarrow> string \<Rightarrow> error + bool" where
  "is_repository_owner r user =
     (case owner r of
        Inl e \<Rightarrow> Inl e
      | Inr a \<Rightarrow> Inr (str_lower (login a) = str_lower user))"

text \<open>
  The loop of \<^verbatim>\<open>analyze_user_activity\<close> over \<^verbatim>\<open>repo_groups.items()\<close>;
  \<^verbatim>\<open>repo_events[0]\<close> raises \<^verbatim>\<open>IndexError\<close> on an empty group.
\<close>

fun build_repositories ::
    "string \<Rightarrow> (string \<times> 'dt GitHubEvent list) list \<Rightarrow> error + RepositoryActivity list" where
  "build_repositories user [] = Inr []"
| "build_repositories user ((repo_name, repo_events) # rest) =
     (let top_activities = get_top_activity_types repo_events 3 in
      case index0 repo_events of
        Inl e \<Rightarrow> Inl e
      | Inr first_event \<Rightarrow>
          (case is_repository_owner (ev_repo first_event) user of
             Inl e \<Rightarrow> Inl e
           | Inr io \<Rightarrow>
               (case RepositoryActivity_init repo_name io top_activities of
                  Inl e \<Rightarrow> Inl e
                | Inr r \<Rightarrow>
                    (case build_repositories user rest of
                       Inl e \<Rightarrow> Inl e
                     | Inr rs \<Rightarrow> Inr (r # rs)))))"

text \<open>
  The part of \<^verbatim>\<open>analyze_user_activity\<close> after the events are fetched: the aggregation
  of an event list.
\<close>

definition analyze_events :: "'dt GitHubEvent list \<Rightarrow> string \<Rightarrow> error + UserActivityResponse" where
  "analyze_events events user =
     (case build_repositories user (group_events_by_repository events) of
        Inl e \<Rightarrow> Inl e
      | Inr repos \<Rightarrow>
          Inr \<lparr>username = user, repositories = repos,
               total_repositories = int (length repos), total_events = int (length events)\<rparr>)"

subsection \<open>What the specification says of the analysis\<close>

text \<open>
  The order of first occurrence: each element once, at the place where it is first met.
\<close>

primrec first_seen :: "'a list \<Rightarrow> 'a list" where
  "first_seen [] = []"
| "first_seen (x # xs) = x # filter (\<lambda>y. y \<noteq> x) (first_seen xs)"

text \<open>The position at which an element is first met.\<close>

definition first_pos :: "'a list \<Rightarrow> 'a \<Rightarrow> nat" where
  "first_pos xs y = length (takeWhile (\<lambda>z. z \<noteq> y) xs)"

text \<open>
  The ranking of the specification, for the activity types \<open>ts\<close> of a group in event
  order: \<open>a\<close> is ranked before \<open>b\<close> when its count is larger, or when the counts are equal
  and its type is first seen earlier.  A ranking lists every type of the group once, with
  the number of its occurrences, in that order.
\<close>

definition ranks_before :: "string list \<Rightarrow> ActivityType \<Rightarrow> ActivityType \<Rightarrow> bool" where
  "ranks_before ts a b =
     (at_count a > at_count b \<or>
      (at_count a = at_count b \<and> first_pos ts (at_type a) < first_pos ts (at_type b)))"

definition is_ranking :: "string list \<Rightarrow> ActivityType list \<Rightarrow> bool" where
  "is_ranking ts ranked =
     (distinct (map at_type ranked) \<and>
      set (map at_type ranked) = set ts \<and>
      list_all (\<lambda>a. at_count a = int (count_list ts (at_type a))) ranked \<and>
      sorted_wrt (ranks_before ts) ranked)"

text \<open>
  The owner of the specification: the part of the full name before the first \<open>/\<close>, empty
  when the name has no \<open>/\<close>.
\<close>

definition owner_of_full_name :: "string \<Rightarrow> string" where
  "owner_of_full_name fn =
     (if CHR ''/'' \<in> set fn then takeWhile (\<lambda>c. c \<noteq> CHR ''/'') fn else [])"

text \<open>The \<^verbatim>\<open>ActivityType\<close> built from an item \<open>(type, count)\<close> of the counter.\<close>

definition mk_activity :: "string \<times> int \<Rightarrow> ActivityType" where
  "mk_activity p = \<lparr>at_type = fst p, at_count = snd p\<rparr>"

text \<open>The summary of the repository \<open>n\<close> that the specification describes.\<close>

definition summary_of :: "'dt GitHubEvent list \<Rightarrow> string \<Rightarrow> string \<Rightarrow> RepositoryActivity" where
  "summary_of events user n =
     \<lparr>repository_name = n,
      is_owner = (str_lower (owner_of_full_name n) = str_lower user),
      top_activity_types =
        get_top_activity_types (filter (\<lambda>e. full_name (ev_repo e) = n) events) 3\<rparr>"

text \<open>
  An event of the given repository and type, for concrete evaluation; the other fields
  are those of the fixtures of the unit tests.
\<close>

definition sample_event :: "string \<Rightarrow> string \<Rightarrow> nat GitHubEvent" where
  "sample_event n t =
     \<lparr>ev_id = 1, ev_type = t, ev_actor = \<lparr>login = ''testuser'', actor_id = 1\<rparr>,
      ev_repo = \<lparr>repo_id = 1, name = n, url = ''https://api.github.com/repos/'' @ n\<rparr>,
      ev_created_at = 0\<rparr>"

section \<open>The upstream client (\<^verbatim>\<open>app/repositories/github_repository.py\<close>)\<close>

subsection \<open>JSON values and the validation of an event\<close>

text \<open>
  What \<^verbatim>\<open>response.json()\<close> returns: \<^verbatim>\<open>None\<close>, a bool, an int, a float, a string, a list
  or a dict (an association list with distinct keys, in insertion order).
\<close>

datatype json =
    JNull
  | JBool bool
  | JInt int
  | JFloat real
  | JStr string
  | JArr "json list"
  | JObj "(string \<times> json) list"

text \<open>
  pydantic and \<^verbatim>\<open>datetime\<close> are libraries, not code of the repository.  What they decide
  for the leaves of a model is a parameter: which JSON values an \<^verbatim>\<open>int\<close> field and a
  \<^verbatim>\<open>str\<close> field accept (and the value they take), and which strings
  \<^verbatim>\<open>datetime.fromisoformat\<close> parses.  \<open>None\<close> is a rejection.
\<close>

record 'dt pyd =
  int_field :: "json \<Rightarrow> int option"
  str_field :: "json \<Rightarrow> string option"
  fromisoformat :: "string \<Rightarrow> 'dt option"

text \<open>
  A required field of a model: absent from the dict or rejected by its validator, it is
  an error of the validation.
\<close>

definition required :: "(string \<times> json) list \<Rightarrow> string \<Rightarrow> (json \<Rightarrow> 'a option) \<Rightarrow> 'a option" where
  "required kvs field validate = Option.bind (map_of kvs field) validate"

definition validate_actor :: "'dt pyd \<Rightarrow> json \<Rightarrow> GitHubActor option" where
  "validate_actor P j =
     (case j of
        JObj kvs \<Rightarrow>
          (case (required kvs ''login'' (str_field P), required kvs ''id'' (int_field P)) of
             (Some l, Some i) \<Rightarrow> Some \<lparr>login = l, actor_id = i\<rparr>
           | _ \<Rightarrow> None)
      | _ \<Rightarrow> None)"

definition validate_repo :: "'dt pyd \<Rightarrow> json \<Rightarrow> GitHubRepositoryResponse option" where
  "validate_repo P j =
     (case j of
        JObj kvs \<Rightarrow>
          (case (required kvs ''id'' (int_field P), required kvs ''name'' (str_field P),
                 required kvs ''url'' (str_field P)) of
             (Some i, Some n, Some u) \<Rightarrow> Some \<lparr>repo_id = i, name = n, url = u\<rparr>
           | _ \<Rightarrow> None)
      | _ \<Rightarrow> None)"

text \<open>\<^verbatim>\<open>v.replace("Z", "+00:00")\<close>: every \<open>Z\<close> of the string is replaced.\<close>

definition replace_Z :: "string \<Rightarrow> string" where
  "replace_Z v = concat (map (\<lambda>c. if c = CHR ''Z'' then ''+00:00'' else [c]) v)"

text \<open>
  The validator \<^verbatim>\<open>parse_created_at\<close>, run on the raw value (\<^verbatim>\<open>mode="before"\<close>).  A value
  that is not a string has no method \<^verbatim>\<open>replace\<close>: \<^verbatim>\<open>AttributeError\<close>.  A string that
  \<^verbatim>\<open>fromisoformat\<close> rejects: \<^verbatim>\<open>ValueError\<close>.
\<close>

definition parse_created_at :: "'dt pyd \<Rightarrow> json \<Rightarrow> error + 'dt" where
  "parse_created_at P v =
     (case v of
        JStr s \<Rightarrow> (case fromisoformat P (replace_Z s) of
                     None \<Rightarrow> Inl ValueError
                   | Some d \<Rightarrow> Inr d)
      | _ \<Rightarrow> Inl AttributeError)"

text \<open>
  \<^verbatim>\<open>GitHubEvent(**event)\<close> for a dict \<^verbatim>\<open>event\<close>.  pydantic collects the errors of the
  fields, among them a \<^verbatim>\<open>ValueError\<close> of a validator, into one \<^verbatim>\<open>ValidationError\<close>; an
  exception of another class raised by a validator leaves the validation as it is.
\<close>

definition GitHubEvent_init :: "'dt pyd \<Rightarrow> (string \<times> json) list \<Rightarrow> error + 'dt GitHubEvent" where
  "GitHubEvent_init P kvs =
     (let f_id = required kvs ''id'' (int_field P);
          f_type = required kvs ''type'' (str_field P);
          f_actor = required kvs ''actor'' (validate_actor P);
          f_repo = required kvs ''repo'' (validate_repo P)
      in case map_of kvs ''created_at'' of
           None \<Rightarrow> Inl ValidationError
         | Some v \<Rightarrow>
             (case parse_created_at P v of
                Inl AttributeError \<Rightarrow> Inl AttributeError
              | Inl _ \<Rightarrow> Inl ValidationError
              | Inr d \<Rightarrow>
                  (case (f_id, f_type, f_actor, f_repo) of
                     (Some i, Some t, Some a, Some r) \<Rightarrow>
                       Inr \<lparr>ev_id = i, ev_type = t, ev_actor = a, ev_repo = r, ev_created_at = d\<rparr>
                   | _ \<Rightarrow> Inl ValidationError)))"

text \<open>\<^verbatim>\<open>GitHubEvent(**event)\<close> for any item: \<^verbatim>\<open>**\<close> of a value that is no dict is a \<^verbatim>\<open>TypeError\<close>.\<close>

definition event_of_json :: "'dt pyd \<Rightarrow> json \<Rightarrow> error + 'dt GitHubEvent" where
  "event_of_json P item =
     (case item of JObj kvs \<Rightarrow> GitHubEvent_init P kvs | _ \<Rightarrow> Inl TypeError)"

text \<open>
  The list comprehension \<^verbatim>\<open>[GitHubEvent(**event) for event in events_data]\<close>: the first
  item that raises ends it.
\<close>

fun events_of_items :: "'dt pyd \<Rightarrow> json list \<Rightarrow> error + 'dt GitHubEvent list" where
  "events_of_items P [] = Inr []"
| "events_of_items P (item # rest) =
     (case event_of_json P item of
        Inl e \<Rightarrow> Inl e
      | Inr ev \<Rightarrow>
          (case events_of_items P rest of
             Inl e \<Rightarrow> Inl e
           | Inr evs \<Rightarrow> Inr (ev # evs)))"

text \<open>
  Iterating the decoded body: a list gives its items, a dict its keys, a string its
  characters; the other values are not iterable.
\<close>

definition iter_json :: "json \<Rightarrow> error + json list" where
  "iter_json j =
     (case j of
        JArr items \<Rightarrow> Inr items
      | JObj kvs \<Rightarrow> Inr (map (\<lambda>kv. JStr (fst kv)) kvs)
      | JStr s \<Rightarrow> Inr (map (\<lambda>c. JStr [c]) s)
      | _ \<Rightarrow> Inl TypeError)"

subsection \<open>The HTTP exchange\<close>

text \<open>
  What \<^verbatim>\<open>await self.client.get(url, timeout=...)\<close> does: it returns a response, or raises
  an \<^verbatim>\<open>httpx.RequestError\<close> (connection refused, timeout, DNS failure, ...), or raises
  \<^verbatim>\<open>httpx.InvalidURL\<close>, which is no \<^verbatim>\<open>RequestError\<close>.  Of a response the code reads the
  status code, the headers and the decoded body; \<open>json_body = None\<close> is a body that
  \<^verbatim>\<open>response.json()\<close> cannot decode, and \<open>error_text\<close> is the text of the
  \<^verbatim>\<open>HTTPStatusError\<close> that \<^verbatim>\<open>raise_for_status\<close> raises for the response.
\<close>

record http_response =
  status_code :: int
  headers :: "(string \<times> string) list"
  json_body :: "json option"
  error_text :: string

datatype http_outcome =
    Response http_response
  | RequestError string
  | InvalidURL

text \<open>
  \<^verbatim>\<open>headers.get(key)\<close> of \<^verbatim>\<open>httpx.Headers\<close>: names are compared without case, several
  values of one name are joined with a comma and a space.
\<close>

fun str_join :: "string \<Rightarrow> string list \<Rightarrow> string" where
  "str_join sep [] = []"
| "str_join sep [x] = x"
| "str_join sep (x # y # ys) = x @ sep @ str_join sep (y # ys)"

definition headers_get :: "(string \<times> string) list \<Rightarrow> string \<Rightarrow> string option" where
  "headers_get hs key =
     (let items = map snd (filter (\<lambda>kv. str_lower (fst kv) = str_lower key) hs)
      in if items = [] then None else Some (str_join '', '' items))"

text \<open>
  \<^verbatim>\<open>int(s)\<close> for an ASCII string: white space around, an optional sign, then decimal
  digits, with single underscores allowed between digits.  More than 4300 digits are
  refused (the default of \<^verbatim>\<open>sys.set_int_max_str_digits\<close>).  \<open>None\<close> is \<^verbatim>\<open>ValueError\<close>.
\<close>

definition is_space :: "char \<Rightarrow> bool" where
  "is_space c = (let n = (of_char c :: nat) in (9 \<le> n \<and> n \<le> 13) \<or> (28 \<le> n \<and> n \<le> 32))"

definition is_digit :: "char \<Rightarrow> bool" where
  "is_digit c = (let n = (of_char c :: nat) in 48 \<le> n \<and> n \<le> 57)"

definition digit_val :: "char \<Rightarrow> int" where
  "digit_val c = int (of_char c) - 48"

definition strip :: "string \<Rightarrow> string" where
  "strip s = rev (dropWhile is_space (rev (dropWhile is_space s)))"

fun parse_digits :: "int \<Rightarrow> string \<Rightarrow> int option" where
  "parse_digits acc [] = Some acc"
| "parse_digits acc [c] = (if is_digit c then Some (10 * acc + digit_val c) else None)"
| "parse_digits acc (c # d # cs) =
     (if is_digit c then parse_digits (10 * acc + digit_val c) (d # cs)
      else if c = CHR ''_'' \<and> is_digit d then parse_digits acc (d # cs)
      else None)"

definition py_int :: "string \<Rightarrow> int option" where
  "py_int s =
     (let t = strip s;
          (neg, body) = (case t of
                           [] \<Rightarrow> (False, [])
                         | c # cs \<Rightarrow> if c = CHR ''-'' then (True, cs)
                                     else if c = CHR ''+'' then (False, cs)
                                     else (False, t))
      in case body of
           [] \<Rightarrow> None
         | c # cs \<Rightarrow>
             if is_digit c \<and> length (filter is_digit body) \<le> 4300
             then map_option (\<lambda>n. if neg then - n else n) (parse_digits 0 body)
             else None)"

text \<open>\<^verbatim>\<open>int(response.headers.get("Retry-After", 0))\<close>.\<close>

definition retry_after_of :: "http_response \<Rightarrow> error + int" where
  "retry_after_of resp =
     (case headers_get (headers resp) ''Retry-After'' of
        None \<Rightarrow> Inr 0
      | Some s \<Rightarrow> (case py_int s of None \<Rightarrow> Inl ValueError | Some n \<Rightarrow> Inr n))"

text \<open>\<^verbatim>\<open>raise_for_status\<close> raises \<^verbatim>\<open>HTTPStatusError\<close> for every status outside 200..299.\<close>

definition is_success :: "http_response \<Rightarrow> bool" where
  "is_success resp = (200 \<le> status_code resp \<and> status_code resp \<le> 299)"

subsection \<open>The repository\<close>

text \<open>
  The dependencies of a \<^verbatim>\<open>GitHubRepository\<close>: the HTTP client, as the outcome it has for
  each URL, the base URL, the timeout, and the library parameters above.  The cache is
  part of the state, with the list of the URLs requested so far.
\<close>

record 'dt repo_env =
  client_get :: "string \<Rightarrow> http_outcome"
  base_url :: string
  timeout :: int
  pydantic :: "'dt pyd"

record 'dt repo_state =
  repo_cache :: "'dt GitHubEvent list TTLCache"
  http_calls :: "string list"

definition get_cache_key :: "string \<Rightarrow> string" where
  "get_cache_key user = ''github_events:'' @ user"

definition api_url :: "'dt repo_env \<Rightarrow> string \<Rightarrow> string" where
  "api_url env user = base_url env @ ''/users/'' @ user @ ''/events''"

text \<open>
  \<^verbatim>\<open>_fetch_from_api\<close>: one call of the client, logged; the two \<^verbatim>\<open>except\<close> clauses turn
  \<^verbatim>\<open>HTTPStatusError\<close> and \<^verbatim>\<open>RequestError\<close> into \<^verbatim>\<open>GitHubAPIError\<close>, every other exception
  raised in the \<^verbatim>\<open>try\<close> block passes through.
\<close>

definition fetch_from_api ::
    "'dt repo_env \<Rightarrow> string list \<Rightarrow> string \<Rightarrow> (error + 'dt GitHubEvent list) \<times> string list" where
  "fetch_from_api env calls user =
     (let url = api_url env user in
      (case client_get env url of
         RequestError msg \<Rightarrow> Inl (GitHubAPIError (''Request error: '' @ msg) None)
       | InvalidURL \<Rightarrow> Inl InvalidURLError
       | Response resp \<Rightarrow>
           if status_code resp = 404 then Inl (UserNotFoundError user)
           else if status_code resp = 429 then
             (case retry_after_of resp of
                Inl e \<Rightarrow> Inl e
              | Inr retry_after \<Rightarrow> Inl (RateLimitError retry_after))
           else if \<not> is_success resp then
             Inl (GitHubAPIError (''GitHub API error: '' @ error_text resp) (Some (status_code resp)))
           else
             (case json_body resp of
                None \<Rightarrow> Inl JSONDecodeError
              | Some events_data \<Rightarrow>
                  (case iter_json events_data of
                     Inl e \<Rightarrow> Inl e
                   | Inr items \<Rightarrow> events_of_items (pydantic env) items)),
       calls @ [url]))"

text \<open>
  \<^verbatim>\<open>get_user_events\<close>, with the clock reads of \<^verbatim>\<open>cache.get\<close> (\<open>t1\<close>, \<open>t2\<close>) and of
  \<^verbatim>\<open>cache.set\<close> (\<open>t3\<close>, \<open>t4\<close>).  It returns the events or the exception, and the state.
\<close>

definition get_user_events ::
    "'dt repo_env \<Rightarrow> 'dt repo_state \<Rightarrow> real \<Rightarrow> real \<Rightarrow> real \<Rightarrow> real \<Rightarrow> string
     \<Rightarrow> (error + 'dt GitHubEvent list) \<times> 'dt repo_state" where
  "get_user_events env st t1 t2 t3 t4 user =
     (let cache_key = get_cache_key user;
          (cached_events, c1) = TTLCache_get (repo_cache st) t1 t2 cache_key
      in case cached_events of
           Some evs \<Rightarrow> (Inr evs, st\<lparr>repo_cache := c1\<rparr>)
         | None \<Rightarrow>
             (case fetch_from_api env (http_calls st) user of
                (Inl e, calls) \<Rightarrow> (Inl e, st\<lparr>repo_cache := c1, http_calls := calls\<rparr>)
              | (Inr events, calls) \<Rightarrow>
                  (Inr events,
                   st\<lparr>repo_cache := TTLCache_set c1 t3 t4 cache_key events,
                      http_calls := calls\<rparr>)))"

text \<open>
  \<^verbatim>\<open>analyze_user_activity\<close>: the events are fetched, then aggregated.
\<close>

definition analyze_user_activity ::
    "'dt repo_env \<Rightarrow> 'dt repo_state \<Rightarrow> real \<Rightarrow> real \<Rightarrow> real \<Rightarrow> real \<Rightarrow> string
     \<Rightarrow> (error + UserActivityResponse) \<times> 'dt repo_state" where
  "analyze_user_activity env st t1 t2 t3 t4 user =
     (case get_user_events env st t1 t2 t3 t4 user of
        (Inl e, st') \<Rightarrow> (Inl e, st')
      | (Inr events, st') \<Rightarrow> (analyze_events events user, st'))"


subsection \<open>Concrete instances for evaluation\<close>

text \<open>
  An instance of the library parameters: an \<^verbatim>\<open>int\<close> field takes a JSON integer, a
  \<^verbatim>\<open>str\<close> field a JSON string, and the one timestamp of the unit tests parses.
\<close>

definition sample_pyd :: "nat pyd" where
  "sample_pyd =
     \<lparr>int_field = (\<lambda>j. case j of JInt n \<Rightarrow> Some n | _ \<Rightarrow> None),
      str_field = (\<lambda>j. case j of JStr s \<Rightarrow> Some s | _ \<Rightarrow> None),
      fromisoformat = (\<lambda>s. if s = ''2026-01-01T00:00:00+00:00'' then Some 0 else None)\<rparr>"

definition sample_env :: "http_outcome \<Rightarrow> nat repo_env" where
  "sample_env outcome =
     \<lparr>client_get = (\<lambda>_. outcome), base_url = ''https://api.github.com'', timeout = 30,
      pydantic = sample_pyd\<rparr>"

definition sample_response :: "int \<Rightarrow> (string \<times> string) list \<Rightarrow> json option \<Rightarrow> http_outcome" where
  "sample_response code hs body =
     Response \<lparr>status_code = code, headers = hs, json_body = body, error_text = ''''\<rparr>"


definition empty_state :: "nat repo_state" where
  "empty_state =
     \<lparr>repo_cache = \<lparr>cache = [], ttl_seconds = 60, max_size = 100\<rparr>, http_calls = []\<rparr>"

section \<open>Properties of the TTL cache\<close>

lemma delete_filter: "AList.delete k d = filter (\<lambda>p. fst p \<noteq> k) d"
  by (induction d) (auto simp: AList.delete_eq)

lemma fold_delete_filter:
  "fold AList.delete ks d = filter (\<lambda>p. fst p \<notin> set ks) d"
proof (induction ks arbitrary: d)
  case Nil
  then show ?case by simp
next
  case (Cons k ks)
  then show ?case by (simp add: delete_filter conj_commute)
qed

lemma expired_key_iff:
  assumes "distinct (map fst d)" "p \<in> set d"
  shows "fst p \<in> fst ` {q \<in> set d. Q q} \<longleftrightarrow> Q p"
proof
  assume "fst p \<in> fst ` {q \<in> set d. Q q}"
  then obtain q where q: "q \<in> set d" "Q q" "fst q = fst p" by auto
  with assms have "q = p" by (metis eq_key_imp_eq_value prod.collapse)
  with q show "Q p" by simp
next
  assume "Q p" with assms show "fst p \<in> fst ` {q \<in> set d. Q q}" by auto
qed

lemma cache_evict_expired:
  assumes "wf_cache c"
  shows "cache (evict_expired t c) = filter (\<lambda>p. t < snd (snd p)) (cache c)"
proof -
  let ?Q = "\<lambda>p::string \<times> 'a \<times> real. t \<ge> snd (snd p)"
  have Qeq: "(\<lambda>(key, (_, expiry_time)). t \<ge> expiry_time) = ?Q"
    by (auto simp: fun_eq_iff)
  have "cache (evict_expired t c) =
        filter (\<lambda>p. fst p \<notin> fst ` {q \<in> set (cache c). ?Q q}) (cache c)"
    by (simp add: evict_expired_def Let_def fold_delete_filter Qeq)
  also have "\<dots> = filter (\<lambda>p. \<not> ?Q p) (cache c)"
    using assms expired_key_iff[of "cache c" _ ?Q]
    by (intro filter_cong) (auto simp: wf_cache_def)
  finally show ?thesis by (simp add: not_le)
qed

lemma evict_expired_fields [simp]:
  "ttl_seconds (evict_expired t c) = ttl_seconds c"
  "max_size (evict_expired t c) = max_size c"
  by (simp_all add: evict_expired_def Let_def)

lemma wf_evict_expired: "wf_cache c \<Longrightarrow> wf_cache (evict_expired t c)"
  using cache_evict_expired[of c t] by (simp add: wf_cache_def distinct_map_filter)


lemma oldest_entry_mem: "oldest_entry b ps \<in> set (b # ps)"
  by (induction ps arbitrary: b) auto

lemma oldest_entry_le_best: "snd (snd (oldest_entry b ps)) \<le> snd (snd b)"
proof (induction ps arbitrary: b)
  case Nil
  then show ?case by simp
next
  case (Cons p ps)
  show ?case using Cons[of p] Cons[of b] by (cases "snd (snd p) < snd (snd b)") auto
qed

lemma oldest_entry_least: "q \<in> set (b # ps) \<Longrightarrow> snd (snd (oldest_entry b ps)) \<le> snd (snd q)"
proof (induction ps arbitrary: b)
  case Nil
  then show ?case by simp
next
  case (Cons p ps)
  show ?case
  proof (cases "snd (snd p) < snd (snd b)")
    case True
    with Cons.prems Cons.IH[of p] oldest_entry_le_best[of p ps] show ?thesis by auto
  next
    case False
    with Cons.prems Cons.IH[of b] oldest_entry_le_best[of b ps] show ?thesis by auto
  qed
qed

lemma delete_is_remove1:
  "distinct (map fst d) \<Longrightarrow> p \<in> set d \<Longrightarrow> AList.delete (fst p) d = remove1 p d"
proof (induction d)
  case Nil
  then show ?case by simp
next
  case (Cons x d)
  show ?case
  proof (cases "x = p")
    case True
    with Cons.prems have "fst p \<notin> fst ` set d" by auto
    then have "filter (\<lambda>q. fst q \<noteq> fst p) d = d"
      by (intro filter_True) (auto simp: image_iff)
    with True show ?thesis by (simp add: delete_filter)
  next
    case False
    with Cons.prems have "p \<in> set d" "fst x \<noteq> fst p" by (auto simp: image_iff rev_image_eqI)
    with Cons False show ?thesis by (simp add: delete_filter)
  qed
qed

lemma evict_oldest_fields [simp]:
  "ttl_seconds (evict_oldest c) = ttl_seconds c"
  "max_size (evict_oldest c) = max_size c"
  by (simp_all add: evict_oldest_def split: list.splits)

lemma evict_oldest_remove1:
  assumes "wf_cache c" "cache c \<noteq> []"
  shows "\<exists>victim \<in> set (cache c).
           (\<forall>p \<in> set (cache c). snd (snd victim) \<le> snd (snd p)) \<and>
           cache (evict_oldest c) = remove1 victim (cache c)"
proof -
  from assms(2) obtain p ps where d: "cache c = p # ps" by (cases "cache c") auto
  let ?v = "oldest_entry p ps"
  have mem: "?v \<in> set (cache c)" using oldest_entry_mem[of p ps] d by simp
  have least: "\<forall>q \<in> set (cache c). snd (snd ?v) \<le> snd (snd q)"
    using oldest_entry_least[of _ p ps] d by simp
  have "cache (evict_oldest c) = AList.delete (fst ?v) (cache c)"
    by (simp add: evict_oldest_def d)
  also have "\<dots> = remove1 ?v (cache c)"
    using assms(1) mem by (simp add: wf_cache_def delete_is_remove1)
  finally show ?thesis using mem least by blast
qed

lemma wf_evict_oldest: "wf_cache c \<Longrightarrow> wf_cache (evict_oldest c)"
  using AList.distinct_delete[of "cache c"]
  by (cases "cache c") (simp_all add: wf_cache_def evict_oldest_def)

lemma TTLCache_set_fields [simp]:
  "ttl_seconds (TTLCache_set c t1 t2 k v) = ttl_seconds c"
  "max_size (TTLCache_set c t1 t2 k v) = max_size c"
  by (simp_all add: TTLCache_set_def Let_def)

lemma TTLCache_get_fields [simp]:
  "ttl_seconds (snd (TTLCache_get c t1 t2 k)) = ttl_seconds c"
  "max_size (snd (TTLCache_get c t1 t2 k)) = max_size c"
  by (simp_all add: TTLCache_get_def Let_def split: option.splits prod.splits)

lemma wf_TTLCache_set: "wf_cache c \<Longrightarrow> wf_cache (TTLCache_set c t1 t2 k v)"
  using wf_evict_expired[of c t1] wf_evict_oldest[of "evict_expired t1 c"]
  by (auto simp: TTLCache_set_def Let_def wf_cache_def intro: AList.distinct_update)

lemma wf_TTLCache_get: "wf_cache c \<Longrightarrow> wf_cache (snd (TTLCache_get c t1 t2 k))"
  using wf_evict_expired[of c t1]
  by (auto simp: TTLCache_get_def Let_def wf_cache_def AList.distinct_delete
           split: option.splits prod.splits)



lemma length_update:
  "length (AList.update k v d) = (if k \<in> fst ` set d then length d else Suc (length d))"
  using AList.update_keys[of k v d] by (metis length_map length_append_singleton set_map)

lemma length_remove1_mem: "p \<in> set d \<Longrightarrow> length (remove1 p d) = length d - 1"
  by (simp add: length_remove1)

lemma card_size_bound_set:
  assumes "wf_cache c" "0 < max_size c" "int (length (cache c)) \<le> max_size c"
  shows "int (length (cache (TTLCache_set c t1 t2 k v))) \<le> max_size c"
proof -
  let ?c1 = "evict_expired t1 c"
  have wf1: "wf_cache ?c1" using assms(1) by (rule wf_evict_expired)
  have len1: "int (length (cache ?c1)) \<le> max_size c"
  proof -
    have "length (cache ?c1) \<le> length (cache c)"
      using assms(1) by (simp add: cache_evict_expired)
    with assms(3) show ?thesis by simp
  qed
  show ?thesis
  proof (cases "int (length (cache ?c1)) \<ge> max_size ?c1 \<and> k \<notin> fst ` set (cache ?c1)")
    case True
    then have ne: "cache ?c1 \<noteq> []" using assms(2) by auto
    from evict_oldest_remove1[OF wf1 ne] obtain victim where
      v: "victim \<in> set (cache ?c1)" "cache (evict_oldest ?c1) = remove1 victim (cache ?c1)"
      by blast
    have "k \<notin> fst ` set (remove1 victim (cache ?c1))"
      using True set_remove1_subset[of victim "cache ?c1"] by auto
    then have "length (cache (TTLCache_set c t1 t2 k v)) = Suc (length (cache ?c1) - 1)"
      using True v by (simp add: TTLCache_set_def Let_def length_update length_remove1_mem)
    with ne len1 show ?thesis by (cases "cache ?c1") auto
  next
    case False
    then have "cache (TTLCache_set c t1 t2 k v) =
               AList.update k (v, t2 + real_of_int (ttl_seconds c)) (cache ?c1)"
      by (auto simp: TTLCache_set_def Let_def)
    with False len1 show ?thesis by (auto simp: length_update)
  qed
qed

lemma TTLCache_get_Some_key:
  "fst (TTLCache_get c t1 t2 k) = Some v \<Longrightarrow> k \<in> fst ` set (cache c)"
proof -
  assume a: "fst (TTLCache_get c t1 t2 k) = Some v"
  have sub: "set (cache (evict_expired t1 c)) \<subseteq> set (cache c)"
    by (auto simp: evict_expired_def Let_def fold_delete_filter)
  from a obtain ve where "map_of (cache (evict_expired t1 c)) k = Some ve"
    by (auto simp: TTLCache_get_def Let_def split: option.splits prod.splits if_splits)
  then have "(k, ve) \<in> set (cache (evict_expired t1 c))" by (rule map_of_SomeD)
  with sub have "(k, ve) \<in> set (cache c)" by blast
  then show ?thesis by (rule image_eqI[rotated]) simp
qed

lemma length_get_le:
  "wf_cache c \<Longrightarrow> length (cache (snd (TTLCache_get c t1 t2 k))) \<le> length (cache c)"
proof -
  assume wf: "wf_cache c"
  have "length (cache (evict_expired t1 c)) \<le> length (cache c)"
    using wf by (simp add: cache_evict_expired)
  moreover have "length (AList.delete k (cache (evict_expired t1 c)))
                 \<le> length (cache (evict_expired t1 c))"
    by (rule AList.length_delete_le)
  ultimately show ?thesis
    by (auto simp: TTLCache_get_def Let_def split: option.splits prod.splits)
qed

lemma cache_inv_op:
  assumes "cache_inv c" "0 < max_size c"
  shows "cache_inv (apply_cache_op c op) \<and> max_size (apply_cache_op c op) = max_size c"
proof (cases op)
  case (Get k t1 t2)
  with assms length_get_le[of c t1 t2 k] wf_TTLCache_get[of c t1 t2 k]
  show ?thesis by (simp add: cache_inv_def)
next
  case (Set k v t1 t2)
  with assms card_size_bound_set[of c t1 t2 k v] wf_TTLCache_set[of c t1 t2 k v]
  show ?thesis by (simp add: cache_inv_def)
next
  case Clear
  with assms show ?thesis by (simp add: cache_inv_def TTLCache_clear_def wf_cache_def)
qed

lemma cache_inv_run:
  "cache_inv c \<Longrightarrow> 0 < max_size c \<Longrightarrow>
   cache_inv (run_cache_ops c ops) \<and> max_size (run_cache_ops c ops) = max_size c"
proof (induction ops arbitrary: c)
  case Nil
  then show ?case by (simp add: run_cache_ops_def)
next
  case (Cons op ops)
  from cache_inv_op[OF Cons.prems] Cons.IH[of "apply_cache_op c op"] Cons.prems
  show ?case by (simp add: run_cache_ops_def)
qed

lemma visible_keys_bound:
  assumes "wf_cache c" "distinct keys"
  shows "length (filter (\<lambda>k. fst (TTLCache_get c t1 t2 k) \<noteq> None) keys) \<le> length (cache c)"
proof -
  let ?vis = "filter (\<lambda>k. fst (TTLCache_get c t1 t2 k) \<noteq> None) keys"
  have "set ?vis \<subseteq> set (map fst (cache c))"
    using TTLCache_get_Some_key[of c t1 t2] by auto
  moreover have "distinct ?vis" using assms(2) by simp
  ultimately have "card (set ?vis) \<le> card (set (map fst (cache c)))"
    by (intro card_mono) auto
  moreover have "card (set ?vis) = length ?vis" using \<open>distinct ?vis\<close> by (rule distinct_card)
  moreover have "card (set (map fst (cache c))) \<le> length (cache c)"
    using card_length[of "map fst (cache c)"] by simp
  ultimately show ?thesis by linarith
qed

text \<open>
  Claim C6.  Start from the empty cache that the constructor returns for a positive
  \<open>max_size\<close>, and run any sequence of \<open>get\<close>, \<open>set\<close> and \<open>clear\<close> calls, with any
  clock reads.  The cache then holds at most \<open>max_size\<close> entries, its keys are distinct,
  and among any list of distinct keys at most \<open>max_size\<close> are answered by \<open>get\<close>.
\<close>
theorem cache_never_exceeds_max_size:
  assumes "0 < ms" and "TTLCache_init ttl ms = Inr c0"
  shows "int (length (cache (run_cache_ops c0 ops))) \<le> ms \<and>
         distinct (map fst (cache (run_cache_ops c0 ops))) \<and>
         (distinct keys \<longrightarrow>
            int (length (filter (\<lambda>k. fst (TTLCache_get (run_cache_ops c0 ops) t1 t2 k) \<noteq> None) keys))
              \<le> ms)"
proof -
  from assms(2) have c0: "c0 = \<lparr>cache = [], ttl_seconds = ttl, max_size = ms\<rparr>"
    by (simp add: TTLCache_init_def)
  then have "cache_inv c0" "0 < max_size c0" using assms(1)
    by (simp_all add: cache_inv_def wf_cache_def)
  from cache_inv_run[OF this, of ops] c0
  have inv: "cache_inv (run_cache_ops c0 ops)" and ms: "max_size (run_cache_ops c0 ops) = ms"
    by simp_all
  from inv ms have len: "int (length (cache (run_cache_ops c0 ops))) \<le> ms"
    and wf: "wf_cache (run_cache_ops c0 ops)"
    by (simp_all add: cache_inv_def)
  have "distinct keys \<longrightarrow>
        int (length (filter (\<lambda>k. fst (TTLCache_get (run_cache_ops c0 ops) t1 t2 k) \<noteq> None) keys)) \<le> ms"
    using visible_keys_bound[OF wf, of keys t1 t2] len by auto
  with len wf show ?thesis by (simp add: wf_cache_def)
qed

text \<open>
  Witness for C6: four distinct keys set into a cache of \<open>max_size = 2\<close>.
\<close>
theorem cache_never_exceeds_max_size_witness:
  "(0::int) < 2 \<and>
   int (length (cache (run_cache_ops \<lparr>cache = [], ttl_seconds = 60, max_size = 2\<rparr>
      [Set ''key1'' (1::nat) 0 0, Set ''key2'' 2 1 1, Get ''key1'' 2 2, Set ''key3'' 3 3 3,
       Set ''key4'' 4 4 4]))) \<le> 2"
  using cache_never_exceeds_max_size[of 2 60 "\<lparr>cache = [], ttl_seconds = 60, max_size = 2\<rparr>"
      "[Set ''key1'' (1::nat) 0 0, Set ''key2'' 2 1 1, Get ''key1'' 2 2, Set ''key3'' 3 3 3,
       Set ''key4'' 4 4 4]"]
  by (simp add: TTLCache_init_def)







lemma validate_positive_int_iff: "validate_positive_int v = (if v \<le> 0 then Inl ValueError else Inr v)"
  by (simp add: validate_positive_int_def)

text \<open>
  Counterexample to C9 as stated: the constructor of the cache returns a cache for
  \<open>ttl_seconds = 0\<close> and \<open>max_size = -1\<close>, with both values stored as given.
\<close>
theorem ttlcache_init_accepts_nonpositive:
  "TTLCache_init 0 (- 1) = (Inr \<lparr>cache = [], ttl_seconds = 0, max_size = - 1\<rparr> :: error + nat TTLCache)"
  by (simp add: TTLCache_init_def)

text \<open>
  Claim C9, amended.  The validation is in the settings: \<open>validate_positive_int\<close> raises
  \<open>ValueError\<close> exactly for values \<open>\<le> 0\<close> and returns every positive value unchanged (no
  clamping), so with \<open>cache_ttl_seconds \<le> 0\<close> or \<open>cache_max_size \<le> 0\<close> configured, the first
  \<open>get_cache\<close> of the process fails in the construction of the settings and builds no
  cache; when it succeeds the cache has the configured, positive values.  The
  constructor of the cache accepts any values.
\<close>
theorem invalid_cache_settings_fail_in_settings:
  fixes g0 :: "'v app_globals"
  shows
  "(validate_positive_int v = Inl ValueError \<longleftrightarrow> v \<le> 0) \<and>
   (validate_positive_int v = Inr v \<longleftrightarrow> 0 < v) \<and>
   (g0 = \<lparr>settings_instance = None, cache_instance = None\<rparr> \<and> (ttl \<le> 0 \<or> ms \<le> 0) \<longrightarrow>
      get_cache (ttl, ms, tmo) g0 = Inl ValidationError) \<and>
   (g0 = \<lparr>settings_instance = None, cache_instance = None\<rparr> \<and>
    get_cache (ttl, ms, tmo) g0 = Inr (c, g) \<longrightarrow>
      0 < ttl \<and> 0 < ms \<and> c = \<lparr>cache = [], ttl_seconds = ttl, max_size = ms\<rparr>) \<and>
   (TTLCache_init ttl ms :: error + 'v TTLCache) = Inr \<lparr>cache = [], ttl_seconds = ttl, max_size = ms\<rparr>"
  by (auto simp: validate_positive_int_def get_cache_def get_settings_def Settings_init_def
        TTLCache_init_def split: sum.splits if_splits)

text \<open>
  Witness for C9: a configured TTL of 0, and a configured size of -5.
\<close>
theorem invalid_cache_settings_fail_in_settings_witness:
  "get_cache (0, 1000, 30) (\<lparr>settings_instance = None, cache_instance = None\<rparr> :: nat app_globals)
     = Inl ValidationError \<and>
   get_cache (600, - 5, 30) (\<lparr>settings_instance = None, cache_instance = None\<rparr> :: nat app_globals)
     = Inl ValidationError \<and>
   validate_positive_int 0 = Inl ValueError \<and> validate_positive_int 600 = Inr 600"
  using invalid_cache_settings_fail_in_settings[of 0 "\<lparr>settings_instance = None, cache_instance = None\<rparr> :: nat app_globals" 0 1000 30]
        invalid_cache_settings_fail_in_settings[of 600 "\<lparr>settings_instance = None, cache_instance = None\<rparr> :: nat app_globals" 600 "- 5" 30]
  by simp

section \<open>Properties of the activity analysis\<close>

lemma set_first_seen [simp]: "set (first_seen xs) = set xs"
  by (induction xs) auto

lemma distinct_first_seen [simp]: "distinct (first_seen xs)"
  by (induction xs) auto

lemma map_default_keys:
  "map fst (AList.map_default k v f d) =
     (if k \<in> set (map fst d) then map fst d else map fst d @ [k])"
  by (induction d) auto

lemma fold_map_default_keys:
  "map fst (fold (\<lambda>x d. AList.map_default (kf x) (v0 x) (g x) d) xs d0) =
     map fst d0 @ filter (\<lambda>y. y \<notin> set (map fst d0)) (first_seen (map kf xs))"
proof (induction xs arbitrary: d0)
  case Nil
  then show ?case by simp
next
  case (Cons x xs)
  let ?d1 = "AList.map_default (kf x) (v0 x) (g x) d0"
  let ?F = "first_seen (map kf xs)"
  show ?case
  proof (cases "kf x \<in> set (map fst d0)")
    case True
    then have k1: "map fst ?d1 = map fst d0" by (simp add: map_default_keys)
    have "filter (\<lambda>y. y \<notin> set (map fst d0)) (filter (\<lambda>y. y \<noteq> kf x) ?F) =
          filter (\<lambda>y. y \<notin> set (map fst d0)) ?F"
      using True by (auto intro: filter_cong)
    with Cons[of ?d1] k1 True show ?thesis by simp
  next
    case False
    then have k1: "map fst ?d1 = map fst d0 @ [kf x]" by (simp add: map_default_keys)
    have "filter (\<lambda>y. y \<notin> set (map fst d0 @ [kf x])) ?F =
          filter (\<lambda>y. y \<notin> set (map fst d0)) (filter (\<lambda>y. y \<noteq> kf x) ?F)"
      by (auto intro: filter_cong)
    with Cons[of ?d1] k1 False show ?thesis by simp
  qed
qed

lemma fold_map_default_distinct:
  "distinct (map fst d0) \<Longrightarrow>
   distinct (map fst (fold (\<lambda>x d. AList.map_default (kf x) (v0 x) (g x) d) xs d0))"
  by (induction xs arbitrary: d0) (simp_all add: AList.distinct_map_default)

lemma group_lookup:
  "map_of (fold (\<lambda>event repo_groups.
             AList.map_default (kf event) [event] (\<lambda>evs. evs @ [event]) repo_groups) events d0) key =
   (case map_of d0 key of
      None \<Rightarrow> (if filter (\<lambda>e. kf e = key) events = [] then None
               else Some (filter (\<lambda>e. kf e = key) events))
    | Some evs \<Rightarrow> Some (evs @ filter (\<lambda>e. kf e = key) events))"
proof (induction events arbitrary: d0)
  case Nil
  then show ?case by (simp split: option.splits)
next
  case (Cons x xs)
  show ?case
    by (simp add: Cons AList.map_of_map_default split: option.splits)
qed

lemma counter_lookup:
  "map_of (fold (\<lambda>x counter. AList.map_default x 1 (\<lambda>n. n + 1) counter) xs d0) t =
   (case map_of d0 t of
      None \<Rightarrow> (if t \<in> set xs then Some (int (count_list xs t)) else None)
    | Some n \<Rightarrow> Some (n + int (count_list xs t)))"
proof (induction xs arbitrary: d0)
  case Nil
  then show ?case by (simp split: option.splits)
next
  case (Cons x xs)
  show ?case
    by (auto simp add: Cons AList.map_of_map_default split: option.splits)
qed

lemma alist_closed_form:
  assumes "distinct (map fst d)"
  shows "d = map (\<lambda>k. (k, the (map_of d k))) (map fst d)"
  using assms
proof (induction d)
  case Nil
  then show ?case by simp
next
  case (Cons p d)
  obtain k v where p: "p = (k, v)" by (cases p)
  from Cons.prems p have kn: "k \<notin> fst ` set d" and dd: "distinct (map fst d)" by auto
  have "map (\<lambda>k'. (k', the (map_of (p # d) k'))) (map fst d) =
        map (\<lambda>k'. (k', the (map_of d k'))) (map fst d)"
    using kn p by (intro map_cong) auto
  with Cons.IH[OF dd] p show ?case by simp
qed

lemma group_events_closed_form:
  "group_events_by_repository events =
     map (\<lambda>n. (n, filter (\<lambda>e. full_name (ev_repo e) = n) events))
         (first_seen (map (\<lambda>e. full_name (ev_repo e)) events))"
proof -
  let ?kf = "\<lambda>e::'a GitHubEvent. full_name (ev_repo e)"
  let ?g = "group_events_by_repository events"
  have keys: "map fst ?g = first_seen (map ?kf events)"
    using fold_map_default_keys[of ?kf "\<lambda>e. [e]" "\<lambda>e evs. evs @ [e]" events "[]"]
    by (simp add: group_events_by_repository_def)
  have dist: "distinct (map fst ?g)" by (simp add: keys)
  have look: "the (map_of ?g n) = filter (\<lambda>e. ?kf e = n) events" if "n \<in> set (map ?kf events)" for n
  proof -
    from that have "filter (\<lambda>e. ?kf e = n) events \<noteq> []"
      by (auto simp: filter_empty_conv)
    then show ?thesis
      using group_lookup[of ?kf events "[]" n] by (simp add: group_events_by_repository_def)
  qed
  have "?g = map (\<lambda>k. (k, the (map_of ?g k))) (map fst ?g)"
    using dist by (rule alist_closed_form)
  also have "\<dots> = map (\<lambda>n. (n, filter (\<lambda>e. ?kf e = n) events)) (first_seen (map ?kf events))"
    unfolding keys using look by (intro map_cong) auto
  finally show ?thesis .
qed

lemma Counter_closed_form:
  "Counter ts = map (\<lambda>t. (t, int (count_list ts t))) (first_seen ts)"
proof -
  have keys: "map fst (Counter ts) = first_seen ts"
    using fold_map_default_keys[of "\<lambda>x. x" "\<lambda>x. 1::int" "\<lambda>x n. n + 1" ts "[]"]
    by (simp add: Counter_def)
  have dist: "distinct (map fst (Counter ts))" by (simp add: keys)
  have look: "the (map_of (Counter ts) t) = int (count_list ts t)" if "t \<in> set ts" for t
    using that counter_lookup[of ts "[]" t] by (simp add: Counter_def)
  have "Counter ts = map (\<lambda>k. (k, the (map_of (Counter ts) k))) (map fst (Counter ts))"
    using dist by (rule alist_closed_form)
  also have "\<dots> = map (\<lambda>t. (t, int (count_list ts t))) (first_seen ts)"
    unfolding keys using look by (intro map_cong) auto
  finally show ?thesis .
qed

lemma first_pos_Cons:
  "first_pos (x # xs) y = (if y = x then 0 else Suc (first_pos xs y))"
  by (auto simp: first_pos_def)

lemma first_seen_sorted_by_pos:
  "sorted_wrt (\<lambda>a b. first_pos xs a < first_pos xs b) (first_seen xs)"
proof (induction xs)
  case Nil
  then show ?case by simp
next
  case (Cons x xs)
  have "sorted_wrt (\<lambda>a b. first_pos xs a < first_pos xs b) (filter (\<lambda>y. y \<noteq> x) (first_seen xs))"
    using Cons by (rule sorted_wrt_filter)
  then have "sorted_wrt (\<lambda>a b. first_pos (x # xs) a < first_pos (x # xs) b)
               (filter (\<lambda>y. y \<noteq> x) (first_seen xs))"
    by (rule sorted_wrt_mono_rel[rotated]) (auto simp: first_pos_Cons)
  then show ?case by (auto simp: first_pos_Cons)
qed

text \<open>Stability of the insertion sort, as an order on the result.\<close>

lemma insort_key_lex:
  fixes g :: "'a \<Rightarrow> int"
  assumes "sorted_wrt (\<lambda>a b. g a < g b \<or> (g a = g b \<and> R a b)) ys"
    and "\<forall>y \<in> set ys. R x y"
  shows "sorted_wrt (\<lambda>a b. g a < g b \<or> (g a = g b \<and> R a b)) (insort_key g x ys)"
  using assms
proof (induction ys)
  case Nil
  then show ?case by simp
next
  case (Cons y ys)
  show ?case
  proof (cases "g x \<le> g y")
    case True
    have "g x < g z \<or> (g x = g z \<and> R x z)" if "z \<in> set (y # ys)" for z
    proof -
      from Cons.prems(1) that have "g y \<le> g z" by auto
      with True have "g x \<le> g z" by simp
      moreover from Cons.prems(2) that have "R x z" by auto
      ultimately show ?thesis by auto
    qed
    with True Cons.prems(1) show ?thesis by simp
  next
    case False
    from Cons.prems have "sorted_wrt (\<lambda>a b. g a < g b \<or> (g a = g b \<and> R a b)) (insort_key g x ys)"
      by (intro Cons.IH) auto
    with False Cons.prems(1) show ?thesis by (auto simp: set_insort_key)
  qed
qed

lemma sort_key_lex:
  fixes g :: "'a \<Rightarrow> int"
  assumes "sorted_wrt R xs"
  shows "sorted_wrt (\<lambda>a b. g a < g b \<or> (g a = g b \<and> R a b)) (sort_key g xs)"
  using assms
proof (induction xs)
  case Nil
  then show ?case by simp
next
  case (Cons x xs)
  then show ?case by (auto intro!: insort_key_lex)
qed

lemma ranked_is_ranking:
  "is_ranking ts (map mk_activity (sort_key (\<lambda>p. - snd p) (Counter ts)))"
proof -
  let ?S = "sort_key (\<lambda>p::string \<times> int. - snd p) (Counter ts)"
  let ?R = "\<lambda>p q::string \<times> int. first_pos ts (fst p) < first_pos ts (fst q)"
  have types: "map at_type (map mk_activity ?S) = map fst ?S"
    by (simp add: mk_activity_def comp_def)
  have dC: "distinct (map fst (Counter ts))"
    by (simp add: Counter_closed_form comp_def)
  have d: "distinct (map fst ?S)"
  proof -
    have "inj_on fst (set (Counter ts))" using dC by (simp add: distinct_map)
    moreover have "distinct ?S" using dC by (simp add: distinct_map)
    ultimately show ?thesis by (simp add: distinct_map)
  qed
  have s: "set (map fst ?S) = set ts"
    by (simp add: Counter_closed_form image_image)
  have c: "list_all (\<lambda>a. at_count a = int (count_list ts (at_type a))) (map mk_activity ?S)"
    by (auto simp: list_all_iff mk_activity_def Counter_closed_form)
  have "sorted_wrt ?R (Counter ts)"
    using first_seen_sorted_by_pos[of ts]
    by (simp add: Counter_closed_form sorted_wrt_map)
  from sort_key_lex[OF this, of "\<lambda>p. - snd p"]
  have "sorted_wrt (ranks_before ts) (map mk_activity ?S)"
    by (simp add: sorted_wrt_map ranks_before_def mk_activity_def)
  moreover have "distinct (map at_type (map mk_activity ?S))"
    unfolding types by (rule d)
  moreover have "set (map at_type (map mk_activity ?S)) = set ts"
    unfolding types by (rule s)
  ultimately show ?thesis using c unfolding is_ranking_def by blast
qed

lemma get_top_activity_types_ranking:
  assumes "events \<noteq> []"
  shows "get_top_activity_types events n =
         take n (map mk_activity (sort_key (\<lambda>p. - snd p) (Counter (map ev_type events))))"
proof -
  have "(\<lambda>(activity_type, n). \<lparr>at_type = activity_type, at_count = n\<rparr>) = mk_activity"
    by (auto simp: mk_activity_def fun_eq_iff)
  with assms show ?thesis
    by (simp add: get_top_activity_types_def most_common_def Let_def take_map)
qed

lemma split_on_first:
  "index0 (split_on sep s) = Inr (takeWhile (\<lambda>c. c \<noteq> sep) s)"
proof (induction s)
  case Nil
  then show ?case by (simp add: index0_def)
next
  case (Cons c cs)
  then show ?case by (auto simp: index0_def split: list.splits)
qed

lemma owner_eq: "owner r = Inr \<lparr>login = owner_of_full_name (name r), actor_id = 0\<rparr>"
  by (simp add: owner_def owner_of_full_name_def split_on_first)

lemma is_repository_owner_eq:
  "is_repository_owner r user =
     Inr (str_lower (owner_of_full_name (full_name r)) = str_lower user)"
  by (simp add: is_repository_owner_def owner_eq full_name_def)

lemma length_get_top: "length (get_top_activity_types evs n) \<le> n"
  by (simp add: get_top_activity_types_def most_common_def Let_def)

lemma build_repositories_closed_form:
  assumes "\<forall>n \<in> set ns. filter (\<lambda>e. full_name (ev_repo e) = n) events \<noteq> []"
  shows "build_repositories user
           (map (\<lambda>n. (n, filter (\<lambda>e. full_name (ev_repo e) = n) events)) ns) =
         Inr (map (summary_of events user) ns)"
  using assms
proof (induction ns)
  case Nil
  then show ?case by simp
next
  case (Cons n ns)
  let ?evs = "filter (\<lambda>e. full_name (ev_repo e) = n) events"
  from Cons.prems obtain e es where evs: "?evs = e # es" by (cases ?evs) auto
  then have "e \<in> set ?evs" by simp
  then have fn: "full_name (ev_repo e) = n" by simp
  have i0: "index0 ?evs = Inr e" by (simp add: index0_def evs)
  have own: "is_repository_owner (ev_repo e) user =
             Inr (str_lower (owner_of_full_name n) = str_lower user)"
    by (simp add: is_repository_owner_eq fn)
  have init: "RepositoryActivity_init n io (get_top_activity_types ?evs 3) =
              Inr \<lparr>repository_name = n, is_owner = io,
                   top_activity_types = get_top_activity_types ?evs 3\<rparr>" for io
    using length_get_top[of ?evs 3] by (simp add: RepositoryActivity_init_def)
  from Cons.prems have ih: "build_repositories user
           (map (\<lambda>n. (n, filter (\<lambda>e. full_name (ev_repo e) = n) events)) ns) =
         Inr (map (summary_of events user) ns)"
    by (intro Cons.IH) simp
  show ?case
    by (simp add: i0 own init ih Let_def summary_of_def)
qed

lemma analyze_events_closed_form:
  "analyze_events events user =
     Inr \<lparr>username = user,
          repositories = map (summary_of events user)
                             (first_seen (map (\<lambda>e. full_name (ev_repo e)) events)),
          total_repositories =
            int (length (first_seen (map (\<lambda>e. full_name (ev_repo e)) events))),
          total_events = int (length events)\<rparr>"
proof -
  have "\<forall>n \<in> set (first_seen (map (\<lambda>e. full_name (ev_repo e)) events)).
          filter (\<lambda>e. full_name (ev_repo e) = n) events \<noteq> []"
    by (auto simp: filter_empty_conv)
  from build_repositories_closed_form[OF this, of user]
  show ?thesis by (simp add: analyze_events_def group_events_closed_form)
qed

lemma unique_sorted_wrt:
  assumes "\<And>a b. R a b \<Longrightarrow> \<not> R b a"
    and "sorted_wrt R xs" "sorted_wrt R ys" "distinct xs" "distinct ys" "set xs = set ys"
  shows "xs = ys"
  using assms(2-)
proof (induction xs arbitrary: ys)
  case Nil
  then show ?case by simp
next
  case (Cons x xs)
  from Cons.prems(5) obtain y ys' where ys: "ys = y # ys'" by (cases ys) auto
  have xy: "x = y"
  proof (rule ccontr)
    assume ne: "x \<noteq> y"
    with Cons.prems(5) ys have "x \<in> set ys'" by auto
    with Cons.prems(2) ys have "R y x" by simp
    moreover from ne Cons.prems(5) ys have "y \<in> set xs" by auto
    with Cons.prems(1) have "R x y" by simp
    ultimately show False using assms(1) by blast
  qed
  with Cons.prems ys have "set xs = set ys'" by auto
  with Cons.prems ys Cons.IH[of ys'] xy show ?case by simp
qed

lemma is_ranking_unique:
  assumes "is_ranking ts r1" "is_ranking ts r2"
  shows "r1 = r2"
proof -
  have mem: "a \<in> set r \<longleftrightarrow> at_type a \<in> set ts \<and> at_count a = int (count_list ts (at_type a))"
    if r: "is_ranking ts r" for r and a :: ActivityType
  proof
    assume "a \<in> set r"
    with r show "at_type a \<in> set ts \<and> at_count a = int (count_list ts (at_type a))"
      unfolding is_ranking_def list_all_iff by auto
  next
    assume a: "at_type a \<in> set ts \<and> at_count a = int (count_list ts (at_type a))"
    with r obtain b where b: "b \<in> set r" "at_type b = at_type a"
      unfolding is_ranking_def by (metis (no_types, lifting) image_iff set_map)
    with r have "at_count b = int (count_list ts (at_type b))"
      unfolding is_ranking_def list_all_iff by auto
    with a b have "b = a" by simp
    with b show "a \<in> set r" by simp
  qed
  have "set r1 = set r2" using mem[OF assms(1)] mem[OF assms(2)] by blast
  moreover have "distinct r1" "distinct r2"
    using assms unfolding is_ranking_def by (auto simp: distinct_map)
  moreover have "sorted_wrt (ranks_before ts) r1" "sorted_wrt (ranks_before ts) r2"
    using assms unfolding is_ranking_def by auto
  moreover have "\<And>a b. ranks_before ts a b \<Longrightarrow> \<not> ranks_before ts b a"
    by (auto simp: ranks_before_def)
  ultimately show ?thesis by (intro unique_sorted_wrt[of "ranks_before ts"]) auto
qed

text \<open>
  Claim C1.  For every event list and username the aggregation returns a response; its
  repositories are in the order in which each distinct repository full name is first met
  in the events; and the \<open>top_activity_types\<close> of each repository are the first three (at
  most) entries of the ranking of the types of its group: every type of the group once,
  with its number of occurrences, larger counts first and, on equal counts, the type
  first seen earlier first.  By \<open>is_ranking_unique\<close> there is one such ranking.
\<close>
theorem analyze_first_seen_order_and_ranking:
  "\<exists>resp. analyze_events events user = Inr resp \<and>
      map repository_name (repositories resp) =
        first_seen (map (\<lambda>e. full_name (ev_repo e)) events) \<and>
      (\<forall>r \<in> set (repositories resp). \<exists>ranked.
          is_ranking (map ev_type
                        (filter (\<lambda>e. full_name (ev_repo e) = repository_name r) events)) ranked \<and>
          top_activity_types r = take 3 ranked)"
proof -
  let ?names = "first_seen (map (\<lambda>e. full_name (ev_repo e)) events)"
  let ?resp = "\<lparr>username = user, repositories = map (summary_of events user) ?names,
                total_repositories = int (length ?names), total_events = int (length events)\<rparr>"
  have a: "analyze_events events user = Inr ?resp" by (rule analyze_events_closed_form)
  have b: "map repository_name (repositories ?resp) = ?names"
    by (simp add: comp_def summary_of_def)
  have c: "\<exists>ranked.
          is_ranking (map ev_type
                        (filter (\<lambda>e. full_name (ev_repo e) = repository_name r) events)) ranked \<and>
          top_activity_types r = take 3 ranked"
    if r: "r \<in> set (repositories ?resp)" for r
  proof -
    from r obtain n where n: "n \<in> set ?names" "r = summary_of events user n" by auto
    let ?evs = "filter (\<lambda>e. full_name (ev_repo e) = n) events"
    from n(1) have ne: "?evs \<noteq> []" by (auto simp: filter_empty_conv)
    let ?ranked = "map mk_activity (sort_key (\<lambda>p. - snd p) (Counter (map ev_type ?evs)))"
    have "is_ranking (map ev_type ?evs) ?ranked" by (rule ranked_is_ranking)
    moreover have "top_activity_types r = take 3 ?ranked"
      using get_top_activity_types_ranking[OF ne, of 3] n(2) by (simp add: summary_of_def)
    moreover have "repository_name r = n" using n(2) by (simp add: summary_of_def)
    ultimately show ?thesis by auto
  qed
  from a b c show ?thesis by blast
qed

text \<open>
  Witness for C1: two events of \<open>a/r1\<close> around one of \<open>b/r2\<close>; and the events
  \<open>Push, Push, Pull, Comment, Comment, Fork\<close> of one repository, ranked
  \<open>Push (2), Comment (2), Pull (1)\<close>.
\<close>
theorem analyze_first_seen_order_and_ranking_witness:
  "(\<exists>resp. analyze_events
       [sample_event ''a/r1'' ''Push'', sample_event ''b/r2'' ''Pull'',
        sample_event ''a/r1'' ''Push''] ''a'' = Inr resp \<and>
      map repository_name (repositories resp) = [''a/r1'', ''b/r2''] \<and>
      (\<forall>r \<in> set (repositories resp). \<exists>ranked.
          is_ranking (map ev_type
                        (filter (\<lambda>e. full_name (ev_repo e) = repository_name r)
                           [sample_event ''a/r1'' ''Push'', sample_event ''b/r2'' ''Pull'',
                            sample_event ''a/r1'' ''Push''])) ranked \<and>
          top_activity_types r = take 3 ranked)) \<and>
   analyze_events
     (map (sample_event ''a/r1'') [''Push'', ''Push'', ''Pull'', ''Comment'', ''Comment'', ''Fork''])
     ''a'' =
   Inr \<lparr>username = ''a'',
        repositories =
          [\<lparr>repository_name = ''a/r1'', is_owner = True,
            top_activity_types =
              [\<lparr>at_type = ''Push'', at_count = 2\<rparr>, \<lparr>at_type = ''Comment'', at_count = 2\<rparr>,
               \<lparr>at_type = ''Pull'', at_count = 1\<rparr>]\<rparr>],
        total_repositories = 1, total_events = 6\<rparr>"
proof -
  have names: "first_seen (map (\<lambda>e. full_name (ev_repo e))
       [sample_event ''a/r1'' ''Push'', sample_event ''b/r2'' ''Pull'',
        sample_event ''a/r1'' ''Push'']) = [''a/r1'', ''b/r2'']"
    by (simp add: sample_event_def full_name_def)
  have second: "analyze_events
     (map (sample_event ''a/r1'') [''Push'', ''Push'', ''Pull'', ''Comment'', ''Comment'', ''Fork''])
     ''a'' =
   Inr \<lparr>username = ''a'',
        repositories =
          [\<lparr>repository_name = ''a/r1'', is_owner = True,
            top_activity_types =
              [\<lparr>at_type = ''Push'', at_count = 2\<rparr>, \<lparr>at_type = ''Comment'', at_count = 2\<rparr>,
               \<lparr>at_type = ''Pull'', at_count = 1\<rparr>]\<rparr>],
        total_repositories = 1, total_events = 6\<rparr>"
    by code_simp
  show ?thesis
    using analyze_first_seen_order_and_ranking[of
        "[sample_event ''a/r1'' ''Push'', sample_event ''b/r2'' ''Pull'',
          sample_event ''a/r1'' ''Push'']" "''a''"]
    unfolding names using second by blast
qed

text \<open>
  Claim C8.  \<open>_is_repository_owner\<close> returns true exactly when the owner of the repository,
  the part of its full name before the first \<open>/\<close> or the empty string when there is no
  \<open>/\<close>, equals the username after both are lower-cased; the \<open>is_owner\<close> flag of every
  summary of the analysis is that comparison for the summary's repository name; and
  \<open>TestUser/repo\<close> is owned by \<open>testuser\<close>.
\<close>
theorem is_owner_case_insensitive:
  "is_repository_owner r user =
     Inr (str_lower (owner_of_full_name (full_name r)) = str_lower user) \<and>
   (\<exists>resp. analyze_events events user = Inr resp \<and>
      (\<forall>s \<in> set (repositories resp).
          is_owner s \<longleftrightarrow> str_lower (owner_of_full_name (repository_name s)) = str_lower user)) \<and>
   is_repository_owner \<lparr>repo_id = i, name = ''TestUser/repo'', url = u\<rparr> ''testuser'' = Inr True"
proof -
  have a: "is_repository_owner r user =
     Inr (str_lower (owner_of_full_name (full_name r)) = str_lower user)"
    by (rule is_repository_owner_eq)
  have b: "\<exists>resp. analyze_events events user = Inr resp \<and>
      (\<forall>s \<in> set (repositories resp).
          is_owner s \<longleftrightarrow> str_lower (owner_of_full_name (repository_name s)) = str_lower user)"
    unfolding analyze_events_closed_form by (auto simp: summary_of_def)
  have "str_lower (owner_of_full_name ''TestUser/repo'') = str_lower ''testuser''"
    by code_simp
  then have c: "is_repository_owner \<lparr>repo_id = i, name = ''TestUser/repo'', url = u\<rparr> ''testuser''
             = Inr True"
    by (simp add: is_repository_owner_eq full_name_def)
  from a b c show ?thesis by blast
qed

text \<open>
  Witness for C8: another owner, a name without \<open>/\<close> against the empty username, and
  the analysis of one event of \<open>TestUser/repo\<close> for \<open>testuser\<close>.
\<close>
theorem is_owner_case_insensitive_witness:
  "is_repository_owner \<lparr>repo_id = 1, name = ''otheruser/repo'', url = ''x''\<rparr> ''testuser'' = Inr False \<and>
   is_repository_owner \<lparr>repo_id = 1, name = ''norepo'', url = ''x''\<rparr> '''' = Inr True \<and>
   (\<exists>resp. analyze_events [sample_event ''TestUser/repo'' ''PushEvent''] ''testuser'' = Inr resp \<and>
      (\<forall>s \<in> set (repositories resp). is_owner s) \<and> repositories resp \<noteq> [])"
proof -
  have e1: "(str_lower (owner_of_full_name ''otheruser/repo'') = str_lower ''testuser'') = False"
    by code_simp
  have e2: "(str_lower (owner_of_full_name ''norepo'') = str_lower '''') = True"
    by code_simp
  have e3: "(str_lower (owner_of_full_name ''TestUser/repo'') = str_lower ''testuser'') = True"
    by code_simp
  have rn: "(\<forall>s \<in> set (repositories resp). repository_name s = ''TestUser/repo'') \<and> repositories resp \<noteq> []"
    if "analyze_events [sample_event ''TestUser/repo'' ''PushEvent''] ''testuser'' = Inr resp" for resp
    using that unfolding analyze_events_closed_form
    by (auto simp: summary_of_def sample_event_def full_name_def)
  from is_owner_case_insensitive[of "\<lparr>repo_id = 1, name = ''otheruser/repo'', url = ''x''\<rparr>"
         "''testuser''" "[] :: nat GitHubEvent list" 1 "''x''"]
  have a: "is_repository_owner \<lparr>repo_id = 1, name = ''otheruser/repo'', url = ''x''\<rparr> ''testuser'' = Inr False"
    unfolding full_name_def using e1 by simp
  from is_owner_case_insensitive[of "\<lparr>repo_id = 1, name = ''norepo'', url = ''x''\<rparr>"
         "''''" "[] :: nat GitHubEvent list" 1 "''x''"]
  have b: "is_repository_owner \<lparr>repo_id = 1, name = ''norepo'', url = ''x''\<rparr> '''' = Inr True"
    unfolding full_name_def using e2 by simp
  from is_owner_case_insensitive[of "\<lparr>repo_id = 1, name = ''norepo'', url = ''x''\<rparr>"
         "''testuser''" "[sample_event ''TestUser/repo'' ''PushEvent'']" 1 "''x''"]
  obtain resp where r: "analyze_events [sample_event ''TestUser/repo'' ''PushEvent''] ''testuser'' = Inr resp"
    "\<forall>s \<in> set (repositories resp).
          is_owner s \<longleftrightarrow> str_lower (owner_of_full_name (repository_name s)) = str_lower ''testuser''"
    by blast
  from rn[OF r(1)] r(2) e3 have "(\<forall>s \<in> set (repositories resp). is_owner s) \<and> repositories resp \<noteq> []"
    by auto
  with a b r(1) show ?thesis by blast
qed

section \<open>Properties of the upstream client\<close>



lemma events_of_items_Inr_iff:
  "events_of_items P items = Inr evs \<longleftrightarrow> map (event_of_json P) items = map Inr evs"
proof (induction items arbitrary: evs)
  case Nil
  then show ?case by auto
next
  case (Cons item rest)
  show ?case
  proof (cases "event_of_json P item")
    case (Inl e)
    then show ?thesis by (cases evs) auto
  next
    case (Inr ev)
    show ?thesis
    proof (cases "events_of_items P rest")
      case (Inl e)
      with Cons[of "tl evs"] Inr show ?thesis by (cases evs) auto
    next
      case r: (Inr evs')
      with Cons[of evs'] Cons[of "tl evs"] Inr show ?thesis by (cases evs) auto
    qed
  qed
qed


lemma snd_fetch_from_api [simp]:
  "snd (fetch_from_api env calls user) = calls @ [api_url env user]"
  by (simp add: fetch_from_api_def Let_def)

lemma fst_fetch_from_api_calls:
  "fst (fetch_from_api env calls user) = fst (fetch_from_api env calls' user)"
  by (simp add: fetch_from_api_def Let_def)

text \<open>The part of the error mapping that holds for every response.\<close>

lemma fetch_error_mapping:
  "client_get env (api_url env user) = Response resp \<Longrightarrow> status_code resp = 404 \<Longrightarrow>
     fst (fetch_from_api env calls user) = Inl (UserNotFoundError user)"
  "client_get env (api_url env user) = Response resp \<Longrightarrow> status_code resp = 429 \<Longrightarrow>
     headers_get (headers resp) ''Retry-After'' = None \<Longrightarrow>
     fst (fetch_from_api env calls user) = Inl (RateLimitError 0)"
  "client_get env (api_url env user) = Response resp \<Longrightarrow> status_code resp = 429 \<Longrightarrow>
     headers_get (headers resp) ''Retry-After'' = Some s \<Longrightarrow> py_int s = Some n \<Longrightarrow>
     fst (fetch_from_api env calls user) = Inl (RateLimitError n)"
  "client_get env (api_url env user) = Response resp \<Longrightarrow> status_code resp = 429 \<Longrightarrow>
     headers_get (headers resp) ''Retry-After'' = Some s \<Longrightarrow> py_int s = None \<Longrightarrow>
     fst (fetch_from_api env calls user) = Inl ValueError"
  "client_get env (api_url env user) = Response resp \<Longrightarrow> status_code resp \<noteq> 404 \<Longrightarrow>
     status_code resp \<noteq> 429 \<Longrightarrow> \<not> is_success resp \<Longrightarrow>
     fst (fetch_from_api env calls user) =
       Inl (GitHubAPIError (''GitHub API error: '' @ error_text resp) (Some (status_code resp)))"
  "client_get env (api_url env user) = RequestError msg \<Longrightarrow>
     fst (fetch_from_api env calls user) = Inl (GitHubAPIError (''Request error: '' @ msg) None)"
  by (simp_all add: fetch_from_api_def Let_def retry_after_of_def)


lemma get_user_events_miss:
  assumes "fst (TTLCache_get (repo_cache st) t1 t2 (get_cache_key user)) = None"
  shows "get_user_events env st t1 t2 t3 t4 user =
     (case fst (fetch_from_api env (http_calls st) user) of
        Inl e \<Rightarrow> (Inl e, st\<lparr>repo_cache := snd (TTLCache_get (repo_cache st) t1 t2 (get_cache_key user)),
                          http_calls := http_calls st @ [api_url env user]\<rparr>)
      | Inr events \<Rightarrow> (Inr events,
           st\<lparr>repo_cache := TTLCache_set (snd (TTLCache_get (repo_cache st) t1 t2 (get_cache_key user)))
                              t3 t4 (get_cache_key user) events,
              http_calls := http_calls st @ [api_url env user]\<rparr>))"
proof -
  obtain r calls where f: "fetch_from_api env (http_calls st) user = (r, calls)"
    by (cases "fetch_from_api env (http_calls st) user")
  then have calls: "calls = http_calls st @ [api_url env user]"
    using snd_fetch_from_api[of env "http_calls st" user] by simp
  obtain v c1 where g: "TTLCache_get (repo_cache st) t1 t2 (get_cache_key user) = (v, c1)"
    by (cases "TTLCache_get (repo_cache st) t1 t2 (get_cache_key user)")
  with assms have v: "v = None" by simp
  show ?thesis
    by (cases r) (simp_all add: get_user_events_def Let_def g v f calls)
qed










lemma empty_state_miss:
  "fst (TTLCache_get (repo_cache empty_state) t1 t2 key) = None"
  by (simp add: TTLCache_get_def evict_expired_def empty_state_def Let_def)




text \<open>
  Claim C3, at the input where the code departs from it: a 429 response whose
  \<open>Retry-After\<close> header is an HTTP date, the other form that the header may take.
  \<open>int\<close> raises \<open>ValueError\<close>, which neither \<open>except\<close> clause catches, so the call fails with
  an exception that is no \<open>GitHubAPIError\<close> instead of \<open>RateLimitError\<close>.  For the other
  outcomes the mapping of the claim holds, by \<open>fetch_error_mapping\<close>.
\<close>
theorem rate_limit_http_date_raises_value_error:
  "fst (get_user_events
          (sample_env (sample_response 429
             [(''Retry-After'', ''Wed, 21 Oct 2015 07:28:00 GMT'')] None))
          empty_state 0 0 0 0 ''testuser'') = Inl ValueError \<and>
   \<not> is_github_api_error ValueError"
proof -
  let ?resp = "\<lparr>status_code = 429,
                headers = [(''Retry-After'', ''Wed, 21 Oct 2015 07:28:00 GMT'')],
                json_body = None, error_text = []\<rparr>"
  let ?env = "sample_env (Response ?resp)"
  have a: "client_get ?env (api_url ?env ''testuser'') = Response ?resp"
    by (simp add: sample_env_def)
  have h: "headers_get (headers ?resp) ''Retry-After'' = Some ''Wed, 21 Oct 2015 07:28:00 GMT''"
    by code_simp
  have n: "py_int ''Wed, 21 Oct 2015 07:28:00 GMT'' = None"
    by code_simp
  have f: "fst (fetch_from_api ?env (http_calls empty_state) ''testuser'') = Inl ValueError"
    by (rule fetch_error_mapping(4)[OF a _ h n]) simp
  have "fst (get_user_events ?env empty_state 0 0 0 0 ''testuser'') = Inl ValueError"
    by (simp only: get_user_events_miss[OF empty_state_miss] f sum.case fst_conv)
  then show ?thesis by (simp add: sample_response_def)
qed

end
